theory Spec2Isabelle
  imports Main "HOL-Library.Word" "HOL-Library.Signed_Division" "HOL-Library.Sublist"
begin

section \<open>The integers of the program\<close>

text \<open>
  The elements of \<^verbatim>\<open>std::vector<int> numbers\<close> are 32-bit two's complement
  integers. \<open>*\<close> on a word wraps around; signed overflow is undefined in C++, and the
  model takes the wrap-around of the multiplication instruction for it. The
  remainder \<^verbatim>\<open>%\<close> of C++ truncates towards zero, which is \<open>smod\<close> on the signed
  readings (not HOL's \<open>mod\<close>, which rounds down). Its divisor in this program is the
  literal 2, so the undefined cases of \<^verbatim>\<open>%\<close> (a zero divisor, \<^verbatim>\<open>INT_MIN % -1\<close>) are
  never reached.
\<close>

type_synonym cint = "32 word"

definition int_rem :: "cint \<Rightarrow> cint \<Rightarrow> cint" where
  "int_rem a b = word_of_int (sint a smod sint b)"

section \<open>Callables\<close>

text \<open>
  A C++ callable is a procedure: it returns a value and may write to the state it can
  reach. It is modelled as a function from the argument and the state to the result and
  the new state. Both lambdas of the program have an empty capture list and a body that
  is a single \<^verbatim>\<open>return\<close> of an arithmetic expression.

  \<^verbatim>\<open>auto square = [](Number auto n) { return n * n; };\<close> is a generic lambda,
  constrained to arithmetic types; the program calls it on \<^verbatim>\<open>int\<close> only.
  \<open>is_even\<close> is the unnamed lambda \<^verbatim>\<open>[](int n) { return n % 2 == 0; }\<close> that is
  handed to \<^verbatim>\<open>std::views::filter\<close>.
\<close>

definition square :: "cint \<Rightarrow> 's \<Rightarrow> cint \<times> 's" where
  "square n s = (n * n, s)"

definition is_even :: "cint \<Rightarrow> 's \<Rightarrow> bool \<times> 's" where
  "is_even n s = (int_rem n 2 = 0, s)"

section \<open>Views\<close>

text \<open>
  \<^verbatim>\<open>numbers | std::views::transform(square)\<close> is a \<^verbatim>\<open>transform_view\<close> over a
  reference to the vector: the view owns no element, it holds the reference and the
  callable. \<open>tv_base\<close> reads the vector through the reference, in the state at hand.

  An iterator into the vector is modelled by the elements from its position to the end:
  \<open>[]\<close> is the end iterator, \<open>x # it\<close> an iterator at \<open>x\<close> whose successor is \<open>it\<close>.
  This is exact as long as nothing writes to the vector while the iterator lives, which
  holds here: the lambdas capture nothing and the loop bodies write to \<^verbatim>\<open>std::cout\<close>
  only.
\<close>

record ('s, 'a, 'b) transform_view =
  tv_base :: "'s \<Rightarrow> 'a list"
  tv_fun :: "'a \<Rightarrow> 's \<Rightarrow> 'b \<times> 's"

definition views_transform :: "('s \<Rightarrow> 'a list) \<Rightarrow> ('a \<Rightarrow> 's \<Rightarrow> 'b \<times> 's) \<Rightarrow> ('s, 'a, 'b) transform_view" where
  "views_transform vec f = \<lparr>tv_base = vec, tv_fun = f\<rparr>"

text \<open>
  \<^verbatim>\<open>for (auto n : v) body\<close> over a transform view: \<^verbatim>\<open>begin()\<close> and \<^verbatim>\<open>end()\<close>
  are taken once; each round dereferences the iterator, which invokes the callable on
  the element of the vector (nothing is stored), binds the result to \<open>n\<close>, runs the
  body and advances. The loop returns the values that \<open>n\<close> took, in order, and the
  final state.
\<close>

fun tv_loop :: "('s, 'a, 'b) transform_view \<Rightarrow> 'a list \<Rightarrow> ('b \<Rightarrow> 's \<Rightarrow> 's) \<Rightarrow> 's \<Rightarrow> 'b list \<times> 's" where
  "tv_loop v [] body s = ([], s)"
| "tv_loop v (x # it) body s =
     (case tv_fun v x s of (n, s1) \<Rightarrow>
        (case tv_loop v it body (body n s1) of (ns, s2) \<Rightarrow> (n # ns, s2)))"

definition tv_for :: "('s, 'a, 'b) transform_view \<Rightarrow> ('b \<Rightarrow> 's \<Rightarrow> 's) \<Rightarrow> 's \<Rightarrow> 'b list \<times> 's" where
  "tv_for v body s = tv_loop v (tv_base v s) body s"

text \<open>
  \<^verbatim>\<open>squared_numbers | std::views::filter(pred)\<close> is a \<^verbatim>\<open>filter_view\<close> holding a
  copy of the transform view and the predicate. \<^verbatim>\<open>begin()\<close> searches the first
  element that satisfies the predicate and remembers the iterator it found in the view
  (\<open>fv_begin_cache\<close>), so that a later \<^verbatim>\<open>begin()\<close> does not search again. The
  iterator of a filter view is the iterator of its base: dereferencing it dereferences
  the transform iterator, which invokes the transform's callable once more;
  incrementing it searches from the next position.
\<close>

record ('s, 'a, 'b) filter_view =
  fv_base :: "('s, 'a, 'b) transform_view"
  fv_pred :: "'b \<Rightarrow> 's \<Rightarrow> bool \<times> 's"
  fv_begin_cache :: "'a list option"

definition views_filter :: "('s, 'a, 'b) transform_view \<Rightarrow> ('b \<Rightarrow> 's \<Rightarrow> bool \<times> 's) \<Rightarrow> ('s, 'a, 'b) filter_view" where
  "views_filter v p = \<lparr>fv_base = v, fv_pred = p, fv_begin_cache = None\<rparr>"

text \<open>
  \<^verbatim>\<open>std::ranges::find_if\<close> on transform iterators:
  \<^verbatim>\<open>for (; first != last; ++first) if (pred(*first)) break; return first;\<close>
\<close>

fun find_if :: "('s, 'a, 'b) transform_view \<Rightarrow> ('b \<Rightarrow> 's \<Rightarrow> bool \<times> 's) \<Rightarrow> 'a list \<Rightarrow> 's \<Rightarrow> 'a list \<times> 's" where
  "find_if v p [] s = ([], s)"
| "find_if v p (x # it) s =
     (case tv_fun v x s of (y, s1) \<Rightarrow>
        (case p y s1 of (b, s2) \<Rightarrow>
           if b then (x # it, s2) else find_if v p it s2))"

definition fv_begin :: "('s, 'a, 'b) filter_view \<Rightarrow> 's \<Rightarrow> 'a list \<times> ('s, 'a, 'b) filter_view \<times> 's" where
  "fv_begin fv s =
     (case fv_begin_cache fv of
        Some it \<Rightarrow> (it, fv, s)
      | None \<Rightarrow>
          (case find_if (fv_base fv) (fv_pred fv) (tv_base (fv_base fv) s) s of
             (it, s1) \<Rightarrow> (it, fv\<lparr>fv_begin_cache := Some it\<rparr>, s1)))"

lemma find_if_length: "length (fst (find_if v p it s)) \<le> length it"
proof (induction it arbitrary: s)
  case Nil
  show ?case by simp
next
  case (Cons x it)
  obtain y s1 where f: "tv_fun v x s = (y, s1)" by (cases "tv_fun v x s")
  obtain b s2 where p: "p y s1 = (b, s2)" by (cases "p y s1")
  show ?case
  proof (cases b)
    case True
    with f p show ?thesis by simp
  next
    case False
    with f p have "find_if v p (x # it) s = find_if v p it s2" by simp
    with Cons.IH [of s2] show ?thesis by simp
  qed
qed

function fv_loop :: "('s, 'a, 'b) filter_view \<Rightarrow> 'a list \<Rightarrow> ('b \<Rightarrow> 's \<Rightarrow> 's) \<Rightarrow> 's \<Rightarrow> 'b list \<times> 's" where
  "fv_loop fv [] body s = ([], s)"
| "fv_loop fv (x # it) body s =
     (case tv_fun (fv_base fv) x s of (n, s1) \<Rightarrow>
        (let r = find_if (fv_base fv) (fv_pred fv) it (body n s1) in
           (case fv_loop fv (fst r) body (snd r) of (ns, s2) \<Rightarrow> (n # ns, s2))))"
  by pat_completeness auto
termination
  apply (relation "measure (\<lambda>(fv, it, body, s). length it)")
  apply simp
  apply (simp add: find_if_length le_imp_less_Suc)
  done

definition fv_for :: "('s, 'a, 'b) filter_view \<Rightarrow> ('b \<Rightarrow> 's \<Rightarrow> 's) \<Rightarrow> 's \<Rightarrow> 'b list \<times> ('s, 'a, 'b) filter_view \<times> 's" where
  "fv_for fv body s =
     (case fv_begin fv s of (it, fv1, s1) \<Rightarrow>
        (case fv_loop fv1 it body s1 of (ns, s2) \<Rightarrow> (ns, fv1, s2)))"

section \<open>Standard output\<close>

text \<open>
  The state of the program: the vector \<^verbatim>\<open>numbers\<close> and the characters written to
  \<^verbatim>\<open>std::cout\<close> so far.
\<close>

record state =
  numbers :: "cint list"
  cout :: string

definition put_string :: "string \<Rightarrow> state \<Rightarrow> state" where
  "put_string str s = s\<lparr>cout := cout s @ str\<rparr>"

definition put_char :: "char \<Rightarrow> state \<Rightarrow> state" where
  "put_char c s = s\<lparr>cout := cout s @ [c]\<rparr>"

text \<open>
  \<^verbatim>\<open>std::cout << n\<close> for an \<^verbatim>\<open>int\<close>, with the stream's default flags: the decimal
  digits, most significant first, after a minus sign when the value is negative.
\<close>

definition digit_char :: "nat \<Rightarrow> char" where
  "digit_char d = ''0123456789'' ! d"

function show_nat :: "nat \<Rightarrow> string" where
  "show_nat n = (if n < 10 then [digit_char n] else show_nat (n div 10) @ [digit_char (n mod 10)])"
  by pat_completeness auto
termination
  by (relation "measure (\<lambda>n. n)") auto

declare show_nat.simps [simp del]

definition show_int :: "int \<Rightarrow> string" where
  "show_int i = (if i < 0 then CHR ''-'' # show_nat (nat (- i)) else show_nat (nat i))"

definition put_int :: "cint \<Rightarrow> state \<Rightarrow> state" where
  "put_int n s = s\<lparr>cout := cout s @ show_int (sint n)\<rparr>"

definition newline :: char where
  "newline = CHR 0x0A"

section \<open>The program\<close>

text \<open>
  \<^verbatim>\<open>auto squared_numbers = numbers | std::views::transform(square);\<close> and
  \<^verbatim>\<open>auto even_squared_numbers = squared_numbers | std::views::filter(...);\<close>
  Constructing a view computes no element and writes nothing.
\<close>

definition squared_numbers :: "(state, cint, cint) transform_view" where
  "squared_numbers = views_transform numbers square"

definition even_squared_numbers :: "(state, cint, cint) filter_view" where
  "even_squared_numbers = views_filter squared_numbers is_even"

text \<open>The body of both loops: \<^verbatim>\<open>std::cout << n << ' ';\<close>\<close>

definition print_elem :: "cint \<Rightarrow> state \<Rightarrow> state" where
  "print_elem n s = put_char (CHR '' '') (put_int n s)"

text \<open>
  \<open>main_trace\<close> lists the program points of \<^verbatim>\<open>main\<close>: the state after each
  statement that has an effect, from the initialisation of \<^verbatim>\<open>numbers\<close> to the last
  newline, each paired with the filter view \<^verbatim>\<open>even_squared_numbers\<close> as it is at
  that point (as it will be constructed, before its declaration). The second loop is the
  only statement that changes the view: its \<^verbatim>\<open>begin()\<close> fills the cache. \<open>main\<close>
  is the exit status with the final state.
\<close>

definition main_trace :: "(state \<times> (state, cint, cint) filter_view) list" where
  "main_trace =
     (let s1 = \<lparr>numbers = [1, 2, 3, 4, 5], cout = ''''\<rparr>;
          s2 = put_string ''Squared Numbers: '' s1;
          s3 = snd (tv_for squared_numbers print_elem s2);
          s4 = put_char newline s3;
          evens = even_squared_numbers;
          s5 = put_string ''Even Squared Numbers: '' s4;
          (ns, evens1, s6) = fv_for evens print_elem s5;
          s7 = put_char newline s6
      in [(s1, evens), (s2, evens), (s3, evens), (s4, evens), (s5, evens),
          (s6, evens1), (s7, evens1)])"

definition main :: "cint \<times> state" where
  "main = (0, fst (last main_trace))"

section \<open>What the loops compute\<close>

text \<open>
  The values a loop binds depend on the callables through their results only; \<open>f\<close> and
  \<open>q\<close> below are the functions that the callables compute, whatever they do to the state.
\<close>

lemma tv_loop_values:
  assumes "\<And>x s. fst (tv_fun v x s) = f x"
  shows "fst (tv_loop v it body s) = map f it"
proof (induction it arbitrary: s)
  case Nil
  show ?case by simp
next
  case (Cons x it)
  obtain n s1 where c: "tv_fun v x s = (n, s1)" by (cases "tv_fun v x s")
  with assms [of x s] have n: "n = f x" by simp
  obtain ns s2 where r: "tv_loop v it body (body n s1) = (ns, s2)"
    by (cases "tv_loop v it body (body n s1)")
  with Cons.IH [of "body n s1"] have "ns = map f it" by simp
  with c n r show ?case by simp
qed

lemma tv_loop_state:
  assumes "\<And>x s. tv_fun v x s = (f x, s)"
  shows "snd (tv_loop v it body s) = fold body (map f it) s"
proof (induction it arbitrary: s)
  case Nil
  show ?case by simp
next
  case (Cons x it)
  obtain ns s2 where r: "tv_loop v it body (body (f x) s) = (ns, s2)"
    by (cases "tv_loop v it body (body (f x) s)")
  with Cons.IH [of "body (f x) s"] have "s2 = fold body (map f it) (body (f x) s)" by simp
  with assms [of x s] r show ?case by simp
qed

lemma tv_loop_effect:
  "snd (tv_loop v it body s) =
     fold (\<lambda>x s. body (fst (tv_fun v x s)) (snd (tv_fun v x s))) it s"
proof (induction it arbitrary: s)
  case Nil
  show ?case by simp
next
  case (Cons x it)
  obtain n s1 where c: "tv_fun v x s = (n, s1)" by (cases "tv_fun v x s")
  obtain ns s2 where r: "tv_loop v it body (body n s1) = (ns, s2)"
    by (cases "tv_loop v it body (body n s1)")
  with Cons.IH [of "body n s1"] c show ?case by simp
qed

lemma find_if_position:
  assumes f: "\<And>x s. fst (tv_fun v x s) = f x"
    and q: "\<And>y s. fst (p y s) = q y"
  shows "fst (find_if v p it s) = dropWhile (\<lambda>x. \<not> q (f x)) it"
proof (induction it arbitrary: s)
  case Nil
  show ?case by simp
next
  case (Cons x it)
  obtain y s1 where c: "tv_fun v x s = (y, s1)" by (cases "tv_fun v x s")
  with f [of x s] have y: "y = f x" by simp
  obtain b s2 where t: "p y s1 = (b, s2)" by (cases "p y s1")
  with q [of y s1] have b: "b = q y" by simp
  show ?case
  proof (cases "q (f x)")
    case True
    with c y t b show ?thesis by simp
  next
    case False
    with c y t b have "find_if v p (x # it) s = find_if v p it s2" by simp
    with Cons.IH [of s2] False show ?thesis by simp
  qed
qed

lemma fv_loop_values:
  assumes f: "\<And>x s. fst (tv_fun (fv_base fv) x s) = f x"
    and q: "\<And>y s. fst (fv_pred fv y s) = q y"
  shows "fst (fv_loop fv (dropWhile (\<lambda>x. \<not> q (f x)) it) body s) = filter q (map f it)"
proof (induction it arbitrary: s)
  case Nil
  show ?case by simp
next
  case (Cons x it)
  show ?case
  proof (cases "q (f x)")
    case False
    with Cons.IH [of s] show ?thesis by simp
  next
    case True
    obtain n s1 where c: "tv_fun (fv_base fv) x s = (n, s1)"
      by (cases "tv_fun (fv_base fv) x s")
    with f [of x s] have n: "n = f x" by simp
    define r where "r = find_if (fv_base fv) (fv_pred fv) it (body n s1)"
    have pos: "fst r = dropWhile (\<lambda>x. \<not> q (f x)) it"
      unfolding r_def using f q by (rule find_if_position)
    obtain ns s2 where l: "fv_loop fv (fst r) body (snd r) = (ns, s2)"
      by (cases "fv_loop fv (fst r) body (snd r)")
    with Cons.IH [of "snd r"] pos have ns: "ns = filter q (map f it)" by simp
    have "fv_loop fv (x # it) body s =
        (case fv_loop fv (fst r) body (snd r) of (ns, s2) \<Rightarrow> (n # ns, s2))"
      using c by (simp add: r_def Let_def)
    with l have "fv_loop fv (x # it) body s = (n # ns, s2)" by simp
    with True n ns show ?thesis by simp
  qed
qed

text \<open>
  A traversal of a filter view whose cache is empty searches the first match and stores
  the iterator; a traversal of a view whose cache holds that iterator starts from it.
\<close>

lemma fv_begin_fresh:
  assumes "fv_begin_cache fv = None"
  shows "fv_begin fv s =
    (fst (find_if (fv_base fv) (fv_pred fv) (tv_base (fv_base fv) s) s),
     fv\<lparr>fv_begin_cache := Some (fst (find_if (fv_base fv) (fv_pred fv) (tv_base (fv_base fv) s) s))\<rparr>,
     snd (find_if (fv_base fv) (fv_pred fv) (tv_base (fv_base fv) s) s))"
  using assms by (simp add: fv_begin_def split: prod.splits)

lemma fv_begin_cached:
  assumes "fv_begin_cache fv = Some it"
  shows "fv_begin fv s = (it, fv, s)"
  using assms by (simp add: fv_begin_def)

lemma fv_for_fresh:
  assumes f: "\<And>x s. fst (tv_fun (fv_base fv) x s) = f x"
    and q: "\<And>y s. fst (fv_pred fv y s) = q y"
    and c: "fv_begin_cache fv = None"
  shows "fst (fv_for fv body s) = filter q (map f (tv_base (fv_base fv) s))"
    and "fst (snd (fv_for fv body s)) =
      fv\<lparr>fv_begin_cache := Some (dropWhile (\<lambda>x. \<not> q (f x)) (tv_base (fv_base fv) s))\<rparr>"
proof -
  define xs where "xs = tv_base (fv_base fv) s"
  define r where "r = find_if (fv_base fv) (fv_pred fv) xs s"
  define fv1 where "fv1 = fv\<lparr>fv_begin_cache := Some (fst r)\<rparr>"
  have pos: "fst r = dropWhile (\<lambda>x. \<not> q (f x)) xs"
    unfolding r_def using f q by (rule find_if_position)
  have b: "fv_begin fv s = (fst r, fv1, snd r)"
    using c by (simp add: fv_begin_fresh r_def xs_def fv1_def)
  have f1: "\<And>x s. fst (tv_fun (fv_base fv1) x s) = f x"
    using f by (simp add: fv1_def)
  have q1: "\<And>y s. fst (fv_pred fv1 y s) = q y"
    using q by (simp add: fv1_def)
  have "fst (fv_loop fv1 (dropWhile (\<lambda>x. \<not> q (f x)) xs) body (snd r)) = filter q (map f xs)"
    using f1 q1 by (rule fv_loop_values)
  with b pos show "fst (fv_for fv body s) = filter q (map f (tv_base (fv_base fv) s))"
    by (auto simp: fv_for_def xs_def split: prod.splits)
  from b pos show "fst (snd (fv_for fv body s)) =
      fv\<lparr>fv_begin_cache := Some (dropWhile (\<lambda>x. \<not> q (f x)) (tv_base (fv_base fv) s))\<rparr>"
    by (simp add: fv_for_def xs_def fv1_def split: prod.splits)
qed

lemma fv_for_cached:
  assumes f: "\<And>x s. fst (tv_fun (fv_base fv) x s) = f x"
    and q: "\<And>y s. fst (fv_pred fv y s) = q y"
    and c: "fv_begin_cache fv = Some (dropWhile (\<lambda>x. \<not> q (f x)) xs)"
  shows "fst (fv_for fv body s) = filter q (map f xs)"
proof -
  have "fst (fv_loop fv (dropWhile (\<lambda>x. \<not> q (f x)) xs) body s) = filter q (map f xs)"
    using f q by (rule fv_loop_values)
  with c show ?thesis
    by (auto simp: fv_for_def fv_begin_cached split: prod.splits)
qed

section \<open>The callables and views of the program\<close>

lemma fold_numbers:
  assumes "\<And>n s. numbers (body n s) = numbers s"
  shows "numbers (fold body ns s) = numbers s"
  using assms by (induction ns arbitrary: s) simp_all

lemma even_sint: "even (sint (n :: cint)) = even n"
  by transfer (simp add: even_signed_take_bit_iff)

lemma smod_2: "(k :: int) smod 2 = (if even k then 0 else sgn k)"
  by (simp add: smod_int_alt_def mod2_eq_if)

lemma int_rem_2: "(int_rem n 2 = 0) = even (sint n)"
proof (cases "even (sint n)")
  case True
  then show ?thesis by (simp add: int_rem_def smod_2)
next
  case False
  then have "sint n \<noteq> 0" by auto
  then have "sgn (sint n) = 1 \<or> sgn (sint n) = - 1"
    by (auto simp: sgn_if)
  then have "(word_of_int (sgn (sint n)) :: cint) \<noteq> 0"
    by auto
  with False show ?thesis by (simp add: int_rem_def smod_2)
qed

lemma square_value: "fst (square n s) = n * n"
  by (simp add: square_def)

lemma is_even_value: "fst (is_even n s) = even n"
  by (simp add: is_even_def int_rem_2 even_sint)

lemma squared_numbers_values:
  "fst (tv_for squared_numbers body s) = map (\<lambda>n. n * n) (numbers s)"
proof -
  have "\<And>x s. fst (tv_fun squared_numbers x s) = x * x"
    by (simp add: squared_numbers_def views_transform_def square_def)
  then have "fst (tv_loop squared_numbers (numbers s) body s) = map (\<lambda>n. n * n) (numbers s)"
    by (rule tv_loop_values)
  then show ?thesis
    by (simp add: tv_for_def squared_numbers_def views_transform_def)
qed

lemma squared_numbers_state:
  "snd (tv_for squared_numbers body s) = fold body (map (\<lambda>n. n * n) (numbers s)) s"
proof -
  have "\<And>x s. tv_fun squared_numbers x s = (x * x, s)"
    by (simp add: squared_numbers_def views_transform_def square_def)
  then have "snd (tv_loop squared_numbers (numbers s) body s) = fold body (map (\<lambda>n. n * n) (numbers s)) s"
    by (rule tv_loop_state)
  then show ?thesis
    by (simp add: tv_for_def squared_numbers_def views_transform_def)
qed

lemma even_squared_base: "\<And>x s. fst (tv_fun (fv_base even_squared_numbers) x s) = x * x"
  by (simp add: even_squared_numbers_def views_filter_def squared_numbers_def
      views_transform_def square_def)

lemma even_squared_pred: "\<And>y s. fst (fv_pred even_squared_numbers y s) = even y"
  by (simp add: even_squared_numbers_def views_filter_def is_even_value)

lemma even_squared_numbers_values:
  "fst (fv_for even_squared_numbers body s) = filter even (map (\<lambda>n. n * n) (numbers s))"
proof -
  have c: "fv_begin_cache even_squared_numbers = None"
    by (simp add: even_squared_numbers_def views_filter_def)
  have b: "tv_base (fv_base even_squared_numbers) s = numbers s"
    by (simp add: even_squared_numbers_def views_filter_def squared_numbers_def
      views_transform_def)
  show ?thesis
    using fv_for_fresh(1) [of even_squared_numbers "\<lambda>n. n * n" even, OF even_squared_base even_squared_pred c]
    by (simp add: b)
qed

lemma no_overflow_in_main:
  "list_all (\<lambda>n :: cint. sint (n * n) = sint n * sint n) [1, 2, 3, 4, 5]"
  by simp

text \<open>The program points of \<open>main\<close>: the vector and the two forms of the filter view.\<close>

lemma main_trace_numbers:
  "\<forall>p \<in> set main_trace. numbers (fst p) = [1, 2, 3, 4, 5]"
  by code_simp

lemma main_trace_views:
  "\<forall>p \<in> set main_trace.
     snd p = even_squared_numbers \<or>
     snd p = even_squared_numbers\<lparr>fv_begin_cache := Some [2, 3, 4, 5]\<rparr>"
proof -
  define s5 where "s5 = put_string ''Even Squared Numbers: ''
    (put_char newline (snd (tv_for squared_numbers print_elem
      (put_string ''Squared Numbers: '' \<lparr>numbers = [1, 2, 3, 4, 5], cout = ''''\<rparr>))))"
  have p: "\<And>n s. numbers (print_elem n s) = numbers s"
    by (simp add: print_elem_def put_char_def put_int_def)
  have n5: "numbers s5 = [1, 2, 3, 4, 5]"
    by (simp add: s5_def put_string_def put_char_def squared_numbers_state p)
  have c: "fv_begin_cache even_squared_numbers = None"
    by (simp add: even_squared_numbers_def views_filter_def)
  have b: "tv_base (fv_base even_squared_numbers) s5 = numbers s5"
    by (simp add: even_squared_numbers_def views_filter_def squared_numbers_def
      views_transform_def)
  have "fst (snd (fv_for even_squared_numbers print_elem s5)) =
      even_squared_numbers\<lparr>fv_begin_cache := Some (dropWhile (\<lambda>x. \<not> even (x * x)) (numbers s5))\<rparr>"
    using fv_for_fresh(2) [of even_squared_numbers "\<lambda>n. n * n" even, OF even_squared_base even_squared_pred c]
    by (simp add: b)
  then have v: "fst (snd (fv_for even_squared_numbers print_elem s5)) =
      even_squared_numbers\<lparr>fv_begin_cache := Some [2, 3, 4, 5]\<rparr>"
    by (simp add: n5)
  obtain ns evens1 s6 where r: "fv_for even_squared_numbers print_elem s5 = (ns, evens1, s6)"
    by (cases "fv_for even_squared_numbers print_elem s5")
  with v have "evens1 = even_squared_numbers\<lparr>fv_begin_cache := Some [2, 3, 4, 5]\<rparr>"
    by simp
  with r show ?thesis
    unfolding main_trace_def Let_def s5_def [symmetric]
    by simp
qed

lemma lengths_at_point:
  assumes n: "numbers s = [1, 2, 3, 4, 5]"
    and e: "evens = even_squared_numbers \<or>
      evens = even_squared_numbers\<lparr>fv_begin_cache := Some [2, 3, 4, 5]\<rparr>"
  shows "length (fst (fv_for evens body s)) \<le> length (fst (tv_for squared_numbers body s)) \<and>
    length (fst (tv_for squared_numbers body s)) = length (numbers s) \<and>
    length (numbers s) = 5"
proof -
  have "fst (fv_for evens body s) = filter even (map (\<lambda>n. n * n) [1, 2, 3, 4, 5])"
  proof (cases "evens = even_squared_numbers")
    case True
    with n show ?thesis by (simp add: even_squared_numbers_values)
  next
    case False
    with e have c: "evens = even_squared_numbers\<lparr>fv_begin_cache := Some [2, 3, 4, 5]\<rparr>"
      by simp
    show ?thesis
      by (rule fv_for_cached) (simp_all add: c even_squared_base even_squared_pred)
  qed
  with n show ?thesis
    by (simp add: squared_numbers_values)
qed

section \<open>Properties of the specification\<close>

text \<open>
  C1. Run on its literal input, the program exits with status 0 and standard output is
  exactly the two lines \<^verbatim>\<open>Squared Numbers: 1 4 9 16 25 \<close> and
  \<^verbatim>\<open>Even Squared Numbers: 4 16 \<close>: each is the label, then the decimal text of
  every element followed by one space (also after the last element), then a newline.
\<close>

theorem main_output:
  "fst main = 0 \<and>
   cout (snd main) =
     ''Squared Numbers: 1 4 9 16 25 '' @ [CHR 0x0A] @ ''Even Squared Numbers: 4 16 '' @ [CHR 0x0A] \<and>
   cout (snd main) =
     ''Squared Numbers: '' @ concat (map (\<lambda>n. show_int n @ '' '') [1, 4, 9, 16, 25]) @ [CHR 0x0A] @
     ''Even Squared Numbers: '' @ concat (map (\<lambda>n. show_int n @ '' '') [4, 16]) @ [CHR 0x0A]"
  by code_simp

text \<open>
  C2. Whatever the loop body does and whatever is on standard output, a traversal of
  \<open>squared_numbers\<close> over the vector \<open>{1, 2, 3, 4, 5}\<close> yields \<open>1, 4, 9, 16, 25\<close>, in
  this order.
\<close>

theorem squared_sequence:
  "fst (tv_for squared_numbers body (s\<lparr>numbers := [1, 2, 3, 4, 5]\<rparr>)) = [1, 4, 9, 16, 25]"
  by (simp add: squared_numbers_values)

text \<open>
  C3. Over the vector \<open>{1, 2, 3, 4, 5}\<close> the base of the filter view, the squared
  sequence, yields \<open>1, 4, 9, 16, 25\<close>, and a traversal of \<open>even_squared_numbers\<close>
  yields \<open>4, 16\<close>, in this order.
\<close>

theorem even_squared_sequence:
  "fst (tv_for (fv_base even_squared_numbers) body1 (s\<lparr>numbers := [1, 2, 3, 4, 5]\<rparr>)) = [1, 4, 9, 16, 25] \<and>
   fst (fv_for even_squared_numbers body2 (s\<lparr>numbers := [1, 2, 3, 4, 5]\<rparr>)) = [4, 16]"
proof -
  have "fv_base even_squared_numbers = squared_numbers"
    by (simp add: even_squared_numbers_def views_filter_def)
  then have "fst (tv_for (fv_base even_squared_numbers) body1 (s\<lparr>numbers := [1, 2, 3, 4, 5]\<rparr>)) = [1, 4, 9, 16, 25]"
    by (simp add: squared_numbers_values)
  moreover have "fst (fv_for even_squared_numbers body2 (s\<lparr>numbers := [1, 2, 3, 4, 5]\<rparr>)) = [4, 16]"
    by (simp add: even_squared_numbers_values)
  ultimately show ?thesis by simp
qed

text \<open>
  C4. For every vector \<open>xs\<close>, every function \<open>f\<close> and every predicate \<open>q\<close> without
  side effects, the filter view over the transform view of \<open>xs\<close> yields \<open>filter q\<close> of
  the sequence \<open>map f xs\<close> that its base yields (with the identity for \<open>f\<close>, any finite
  sequence): a subsequence of the input, so in the input's order, holding every element
  that satisfies \<open>q\<close> as often as the input does and no other element. The result is a
  list, hence finite, and the traversal is a total function.
\<close>

theorem filter_view_elements:
  fixes xs :: "'a list" and f :: "'a \<Rightarrow> 'b" and q :: "'b \<Rightarrow> bool"
  shows "fst (tv_for (views_transform (\<lambda>s. xs) (\<lambda>x s. (f x, s))) body1 s1) = map f xs \<and>
    fst (fv_for (views_filter (views_transform (\<lambda>s. xs) (\<lambda>x s. (f x, s))) (\<lambda>y s. (q y, s))) body2 s2)
      = filter q (map f xs) \<and>
    subseq (filter q (map f xs)) (map f xs) \<and>
    (\<forall>y. count_list (filter q (map f xs)) y = (if q y then count_list (map f xs) y else 0))"
proof -
  let ?v = "views_transform (\<lambda>s. xs) (\<lambda>x s. (f x, s))"
  let ?fv = "views_filter ?v (\<lambda>y s. (q y, s))"
  have i: "fst (tv_for ?v body1 s1) = map f xs"
    unfolding tv_for_def
    by (simp add: views_transform_def tv_loop_values [where f = f])
  have "fst (fv_for ?fv body2 s2) = filter q (map f (tv_base (fv_base ?fv) s2))"
    by (rule fv_for_fresh(1)) (simp_all add: views_filter_def views_transform_def)
  then have o: "fst (fv_for ?fv body2 s2) = filter q (map f xs)"
    by (simp add: views_filter_def views_transform_def)
  have c: "count_list (filter q ys) y = (if q y then count_list ys y else 0)" for ys y
    by (induction ys) auto
  from i o c show ?thesis by simp
qed

text \<open>
  C5. For every vector \<open>xs\<close> and every function \<open>f\<close>, a traversal of the transform view
  yields as many values as \<open>xs\<close> has elements, the \<open>i\<close>-th being \<open>f\<close> of the \<open>i\<close>-th element
  of \<open>xs\<close>, whatever the loop body does. With a callable that computes \<open>f\<close> and counts
  its own invocations in the state, a traversal yields these values and invokes the
  callable once on every element of \<open>xs\<close>, and a second traversal yields them again and
  invokes it once more on every element: nothing was kept from the first.
\<close>

theorem transform_view_elements:
  fixes xs :: "'a list" and f :: "'a \<Rightarrow> 'b" and c0 :: nat
  shows "length (fst (tv_for (views_transform (\<lambda>s. xs) (\<lambda>x s. (f x, s))) body s)) = length xs \<and>
    (\<forall>i < length xs.
       fst (tv_for (views_transform (\<lambda>s. xs) (\<lambda>x s. (f x, s))) body s) ! i = f (xs ! i)) \<and>
    (case tv_for (views_transform (\<lambda>c. xs) (\<lambda>x c. (f x, Suc c))) (\<lambda>n c. c) c0 of
       (ys1, c1) \<Rightarrow>
         (case tv_for (views_transform (\<lambda>c. xs) (\<lambda>x c. (f x, Suc c))) (\<lambda>n c. c) c1 of
            (ys2, c2) \<Rightarrow>
              ys1 = map f xs \<and> ys2 = map f xs \<and> c1 = c0 + length xs \<and> c2 = c1 + length xs))"
proof -
  let ?p = "views_transform (\<lambda>s. xs) (\<lambda>x s. (f x, s))"
  let ?v = "views_transform (\<lambda>c. xs) (\<lambda>x c. (f x, Suc c))"
  have pure: "fst (tv_for ?p body s) = map f xs"
    unfolding tv_for_def
    by (simp add: views_transform_def tv_loop_values [where f = f])
  have vals: "fst (tv_for ?v body c) = map f xs" for body c
    unfolding tv_for_def
    by (simp add: views_transform_def tv_loop_values [where f = f])
  have "fold (\<lambda>x c. Suc c) it c = c + length it" for it :: "'a list" and c
    by (induction it arbitrary: c) simp_all
  then have cnt: "snd (tv_loop ?v it (\<lambda>n c. c) c) = c + length it" for it c
    by (simp add: tv_loop_effect views_transform_def)
  have cnt': "snd (tv_for ?v (\<lambda>n c. c) c) = c + length xs" for c
    unfolding tv_for_def using cnt [of xs c] by (simp add: views_transform_def)
  obtain ys1 c1 where r1: "tv_for ?v (\<lambda>n c. c) c0 = (ys1, c1)"
    by (cases "tv_for ?v (\<lambda>n c. c) c0")
  obtain ys2 c2 where r2: "tv_for ?v (\<lambda>n c. c) c1 = (ys2, c2)"
    by (cases "tv_for ?v (\<lambda>n c. c) c1")
  from r1 vals [of "\<lambda>n c. c" c0] cnt' [of c0] have 1: "ys1 = map f xs" "c1 = c0 + length xs"
    by simp_all
  from r2 vals [of "\<lambda>n c. c" c1] cnt' [of c1] have 2: "ys2 = map f xs" "c2 = c1 + length xs"
    by simp_all
  from r1 r2 1 2 pure show ?thesis by simp
qed

theorem transform_view_elements_witness:
  "(1 :: nat) < length [3, 4, 5 :: cint] \<and>
   fst (tv_for (views_transform (\<lambda>s. [3, 4, 5 :: cint]) (\<lambda>x s. (x * x, s))) print_elem
     \<lparr>numbers = [], cout = ''''\<rparr>) ! 1 = 16 \<and>
   (case tv_for (views_transform (\<lambda>c. [3, 4, 5 :: cint]) (\<lambda>x c. (x * x, Suc c))) (\<lambda>n c. c) 0 of
      (ys1, c1) \<Rightarrow>
        (case tv_for (views_transform (\<lambda>c. [3, 4, 5 :: cint]) (\<lambda>x c. (x * x, Suc c))) (\<lambda>n c. c) c1 of
           (ys2, c2) \<Rightarrow> ys1 = [9, 16, 25] \<and> ys2 = [9, 16, 25] \<and> c1 = 3 \<and> c2 = 6))"
  using transform_view_elements [of "[3, 4, 5 :: cint]" "\<lambda>x. x * x" print_elem
      "\<lparr>numbers = [], cout = ''''\<rparr>" 0]
  by (auto split: prod.splits)

text \<open>
  C6. For every \<^verbatim>\<open>int\<close> \<open>x\<close>, negative or not, the predicate of the filter stage
  returns true exactly when \<open>x\<close> modulo 2 is 0, be the remainder the one that rounds
  down (\<open>mod\<close>) or the one that truncates (\<open>smod\<close>, the \<^verbatim>\<open>%\<close> of C++); it leaves
  the state as it was.
\<close>

theorem is_even_spec:
  "fst (is_even x s) = (sint x mod 2 = 0) \<and>
   fst (is_even x s) = (sint x smod 2 = 0) \<and>
   snd (is_even x s) = s"
proof -
  have "(sint x smod 2 = 0) = even (sint x)"
    by (auto simp: smod_2 sgn_if)
  then show ?thesis
    by (simp add: is_even_def int_rem_2 even_iff_mod_2_eq_zero)
qed

text \<open>
  C7. Let the loop body leave \<open>numbers\<close> alone, as the bodies of the program do. A second
  traversal of \<open>squared_numbers\<close>, in the state the first one left, yields the values
  of the first; and a second traversal of \<open>even_squared_numbers\<close>, in the state and
  with the view (its cache filled) that the first one left, yields the values of the
  first.
\<close>

theorem reiteration_same_values:
  assumes "\<forall>n s. numbers (body n s) = numbers s"
  shows "fst (tv_for squared_numbers body (snd (tv_for squared_numbers body s))) =
      fst (tv_for squared_numbers body s) \<and>
    (case fv_for even_squared_numbers body s of
       (ns, evens1, s1) \<Rightarrow> fst (fv_for evens1 body s1) = ns)"
proof -
  have "numbers (snd (tv_for squared_numbers body s)) = numbers s"
    using assms by (simp add: squared_numbers_state fold_numbers)
  then have a: "fst (tv_for squared_numbers body (snd (tv_for squared_numbers body s))) =
      fst (tv_for squared_numbers body s)"
    by (simp add: squared_numbers_values)
  obtain ns evens1 s1 where r: "fv_for even_squared_numbers body s = (ns, evens1, s1)"
    by (cases "fv_for even_squared_numbers body s")
  have c: "fv_begin_cache even_squared_numbers = None"
    by (simp add: even_squared_numbers_def views_filter_def)
  have b: "tv_base (fv_base even_squared_numbers) s = numbers s"
    by (simp add: even_squared_numbers_def views_filter_def squared_numbers_def
      views_transform_def)
  have "fst (snd (fv_for even_squared_numbers body s)) =
      even_squared_numbers\<lparr>fv_begin_cache := Some (dropWhile (\<lambda>x. \<not> even (x * x)) (numbers s))\<rparr>"
    using fv_for_fresh(2) [of even_squared_numbers "\<lambda>n. n * n" even, OF even_squared_base even_squared_pred c]
    by (simp add: b)
  with r have e: "evens1 =
      even_squared_numbers\<lparr>fv_begin_cache := Some (dropWhile (\<lambda>x. \<not> even (x * x)) (numbers s))\<rparr>"
    by simp
  have "fst (fv_for evens1 body s1) = filter even (map (\<lambda>n. n * n) (numbers s))"
    by (rule fv_for_cached) (simp_all add: e even_squared_base even_squared_pred)
  moreover from r have "ns = filter even (map (\<lambda>n. n * n) (numbers s))"
    using even_squared_numbers_values [of body s] by simp
  ultimately have "fst (fv_for evens1 body s1) = ns" by simp
  with a r show ?thesis by simp
qed

theorem reiteration_same_values_witness:
  "(\<forall>n s. numbers (print_elem n s) = numbers s) \<and>
   fst (tv_for squared_numbers print_elem
     (snd (tv_for squared_numbers print_elem \<lparr>numbers = [1, 2, 3, 4, 5], cout = ''''\<rparr>))) =
   fst (tv_for squared_numbers print_elem \<lparr>numbers = [1, 2, 3, 4, 5], cout = ''''\<rparr>) \<and>
   (case fv_for even_squared_numbers print_elem \<lparr>numbers = [1, 2, 3, 4, 5], cout = ''''\<rparr> of
      (ns, evens1, s1) \<Rightarrow> fst (fv_for evens1 print_elem s1) = ns)"
proof -
  have h: "\<forall>n s. numbers (print_elem n s) = numbers s"
    by (simp add: print_elem_def put_char_def put_int_def)
  from h reiteration_same_values [OF h, of "\<lparr>numbers = [1, 2, 3, 4, 5], cout = ''''\<rparr>"]
  show ?thesis by simp
qed

text \<open>
  C8. At every program point of the run (each paired with the filter view as it is
  there, and with whatever the loop that runs at that point has written to
  \<^verbatim>\<open>std::cout\<close> so far), a traversal of the even-squared sequence yields at most as
  many values as one of the squared sequence, which yields as many as the vector has
  elements, and these are 5.
\<close>

theorem length_invariant:
  "\<forall>(s, evens) \<in> set main_trace. \<forall>out.
     length (fst (fv_for evens (\<lambda>n s. s) (s\<lparr>cout := out\<rparr>)))
       \<le> length (fst (tv_for squared_numbers (\<lambda>n s. s) (s\<lparr>cout := out\<rparr>))) \<and>
     length (fst (tv_for squared_numbers (\<lambda>n s. s) (s\<lparr>cout := out\<rparr>))) = length (numbers s) \<and>
     length (numbers s) = 5"
proof (clarify)
  fix s evens out
  assume m: "(s, evens) \<in> set main_trace"
  from m main_trace_numbers have n: "numbers (s\<lparr>cout := out\<rparr>) = [1, 2, 3, 4, 5]"
    by fastforce
  from m main_trace_views have e: "evens = even_squared_numbers \<or>
      evens = even_squared_numbers\<lparr>fv_begin_cache := Some [2, 3, 4, 5]\<rparr>"
    by fastforce
  from lengths_at_point [OF n e, of "\<lambda>n s. s"]
  show "length (fst (fv_for evens (\<lambda>n s. s) (s\<lparr>cout := out\<rparr>)))
       \<le> length (fst (tv_for squared_numbers (\<lambda>n s. s) (s\<lparr>cout := out\<rparr>))) \<and>
     length (fst (tv_for squared_numbers (\<lambda>n s. s) (s\<lparr>cout := out\<rparr>))) = length (numbers s) \<and>
     length (numbers s) = 5"
    by simp
qed

theorem length_invariant_witness:
  "last main_trace \<in> set main_trace \<and>
   (case last main_trace of (s, evens) \<Rightarrow>
      length (fst (fv_for evens (\<lambda>n s. s) (s\<lparr>cout := ''Even ''\<rparr>)))
        \<le> length (fst (tv_for squared_numbers (\<lambda>n s. s) (s\<lparr>cout := ''Even ''\<rparr>))) \<and>
      length (fst (tv_for squared_numbers (\<lambda>n s. s) (s\<lparr>cout := ''Even ''\<rparr>))) = length (numbers s) \<and>
      length (numbers s) = 5)"
proof -
  have "length main_trace = 7"
    by code_simp
  then have "main_trace \<noteq> []"
    by auto
  then have m: "last main_trace \<in> set main_trace"
    by (rule last_in_set)
  obtain s evens where l: "last main_trace = (s, evens)"
    by (cases "last main_trace")
  from m l have "(s, evens) \<in> set main_trace"
    by (simp only:)
  with length_invariant have "case (s, evens) of (s, evens) \<Rightarrow> \<forall>out.
      length (fst (fv_for evens (\<lambda>n s. s) (s\<lparr>cout := out\<rparr>)))
        \<le> length (fst (tv_for squared_numbers (\<lambda>n s. s) (s\<lparr>cout := out\<rparr>))) \<and>
      length (fst (tv_for squared_numbers (\<lambda>n s. s) (s\<lparr>cout := out\<rparr>))) = length (numbers s) \<and>
      length (numbers s) = 5"
    by (rule bspec)
  then have "\<forall>out.
      length (fst (fv_for evens (\<lambda>n s. s) (s\<lparr>cout := out\<rparr>)))
        \<le> length (fst (tv_for squared_numbers (\<lambda>n s. s) (s\<lparr>cout := out\<rparr>))) \<and>
      length (fst (tv_for squared_numbers (\<lambda>n s. s) (s\<lparr>cout := out\<rparr>))) = length (numbers s) \<and>
      length (numbers s) = 5"
    unfolding prod.case .
  then have "length (fst (fv_for evens (\<lambda>n s. s) (s\<lparr>cout := ''Even ''\<rparr>)))
        \<le> length (fst (tv_for squared_numbers (\<lambda>n s. s) (s\<lparr>cout := ''Even ''\<rparr>))) \<and>
      length (fst (tv_for squared_numbers (\<lambda>n s. s) (s\<lparr>cout := ''Even ''\<rparr>))) = length (numbers s) \<and>
      length (numbers s) = 5"
    by (rule spec)
  then have "case last main_trace of (s, evens) \<Rightarrow>
      length (fst (fv_for evens (\<lambda>n s. s) (s\<lparr>cout := ''Even ''\<rparr>)))
        \<le> length (fst (tv_for squared_numbers (\<lambda>n s. s) (s\<lparr>cout := ''Even ''\<rparr>))) \<and>
      length (fst (tv_for squared_numbers (\<lambda>n s. s) (s\<lparr>cout := ''Even ''\<rparr>))) = length (numbers s) \<and>
      length (numbers s) = 5"
    unfolding l prod.case .
  with m show ?thesis ..
qed

text \<open>
  C9. The vector is \<open>{1, 2, 3, 4, 5}\<close> at every program point of the run, from its
  initialisation to the exit of \<^verbatim>\<open>main\<close>, after both sequences were traversed and
  written out; and nothing that runs in between writes to it: not the loop body, not
  the two callables.
\<close>

theorem numbers_never_mutated:
  "map (numbers \<circ> fst) main_trace = replicate 7 [1, 2, 3, 4, 5] \<and>
   numbers (snd main) = [1, 2, 3, 4, 5] \<and>
   numbers (print_elem n s) = numbers s \<and>
   snd (square n t) = t \<and> snd (is_even n t) = t"
proof -
  have "map (numbers \<circ> fst) main_trace = replicate 7 [1, 2, 3, 4, 5]"
    by code_simp
  moreover have "numbers (snd main) = [1, 2, 3, 4, 5]"
    by code_simp
  moreover have "numbers (print_elem n s) = numbers s"
    by (simp add: print_elem_def put_char_def put_int_def)
  ultimately show ?thesis
    by (simp add: square_def is_even_def)
qed

text \<open>
  C10. For every vector \<open>xs\<close> of \<^verbatim>\<open>int\<close>, the even-squared sequence over \<open>xs\<close> is the
  sequence of the squares of the even elements of \<open>xs\<close>, in their order, because the
  square of an \<^verbatim>\<open>int\<close> is even exactly when the \<^verbatim>\<open>int\<close> is; so each of its elements
  is the square of an even element of the vector. The square is the wrapped product: its
  lowest bit is that of the element also where the product overflows.
\<close>

theorem filter_squares_commute:
  fixes xs :: "cint list"
  shows "fst (fv_for even_squared_numbers body (s\<lparr>numbers := xs\<rparr>)) =
      map (\<lambda>n. fst (square n ())) (filter (\<lambda>n. fst (is_even n ())) xs) \<and>
    fst (is_even (fst (square x ())) ()) = fst (is_even x ()) \<and>
    (\<forall>y \<in> set (fst (fv_for even_squared_numbers body (s\<lparr>numbers := xs\<rparr>))).
       \<exists>x \<in> set xs. fst (is_even x ()) \<and> y = fst (square x ()))"
proof -
  define evens where "evens = fst (fv_for even_squared_numbers body (s\<lparr>numbers := xs\<rparr>))"
  have "filter even (map (\<lambda>n. n * n) xs) = map (\<lambda>n. n * n) (filter even xs)"
    by (induction xs) simp_all
  then have "evens = map (\<lambda>n. n * n) (filter even xs)"
    by (simp add: evens_def even_squared_numbers_values)
  then have "evens = map (\<lambda>n. fst (square n ())) (filter (\<lambda>n. fst (is_even n ())) xs) \<and>
    (\<forall>y \<in> set evens. \<exists>x \<in> set xs. fst (is_even x ()) \<and> y = fst (square x ()))"
    by (auto simp: square_value is_even_value)
  moreover have "fst (is_even (fst (square x ())) ()) = fst (is_even x ())"
    by (simp add: square_value is_even_value)
  ultimately show ?thesis by (simp add: evens_def)
qed

theorem filter_squares_commute_witness:
  "36 \<in> set (fst (fv_for even_squared_numbers print_elem
      \<lparr>numbers = [- 3, 6, 65537, 7], cout = ''''\<rparr>)) \<and>
   (\<exists>x \<in> set [- 3, 6, 65537, 7]. fst (is_even x ()) \<and> 36 = fst (square x ()))"
proof -
  have e: "fst (fv_for even_squared_numbers print_elem
      (\<lparr>numbers = [], cout = ''''\<rparr>\<lparr>numbers := [- 3, 6, 65537, 7]\<rparr>)) = [36]"
    by code_simp
  from filter_squares_commute [where body = print_elem and s = "\<lparr>numbers = [], cout = ''''\<rparr>"
      and xs = "[- 3, 6, 65537, 7]"]
  have "\<forall>y \<in> set (fst (fv_for even_squared_numbers print_elem
      (\<lparr>numbers = [], cout = ''''\<rparr>\<lparr>numbers := [- 3, 6, 65537, 7]\<rparr>))).
       \<exists>x \<in> set [- 3, 6, 65537, 7]. fst (is_even x ()) \<and> y = fst (square x ())"
    by simp
  with e show ?thesis by simp
qed

end
